theory Spec2Isabelle
  imports Main
begin

section \<open>Strings as JavaScript sees them\<close>

text \<open>
  A JavaScript string is a sequence of code units. The model uses \<^typ>\<open>string\<close>
  (a list of 8-bit \<^typ>\<open>char\<close>), read as the code units U+0000 .. U+00FF. The
  white space of \<^verbatim>\<open>\s\<close> and of \<^verbatim>\<open>String.prototype.trim\<close> (WhiteSpace and
  LineTerminator of ECMAScript) that lies in this range is TAB, LF, VT, FF, CR, SPACE
  and NO-BREAK SPACE.
\<close>

definition is_space :: "char \<Rightarrow> bool" where
  "is_space c = (of_char c \<in> {9, 10, 11, 12, 13, 32, 160 :: nat})"

text \<open>\<^verbatim>\<open>s.trim()\<close>: white space removed at both ends.\<close>

definition trim :: "string \<Rightarrow> string" where
  "trim s = rev (dropWhile is_space (rev (dropWhile is_space s)))"

section \<open>query-interface.tsx: the query component\<close>

text \<open>
  The result of the external \<^verbatim>\<open>Query\<close> call, \<^verbatim>\<open>{columns: string[], rows: any[][]}\<close>.
  The cells are opaque to the component (it only prints them with \<^verbatim>\<open>String(cell)\<close>);
  they are kept as strings.
\<close>

record query_result =
  columns :: "string list"
  rows :: "string list list"

text \<open>The argument of \<^verbatim>\<open>toast({title, description, variant})\<close>.\<close>

record toast_msg =
  title :: string
  description :: string
  variant :: string

text \<open>
  What a rejected \<^verbatim>\<open>Query\<close> promise throws into the \<^verbatim>\<open>catch\<close> block: an
  \<^verbatim>\<open>Error\<close> object with its \<^verbatim>\<open>message\<close>, or a value that is not an
  \<^verbatim>\<open>Error\<close>. Such a value may still carry a message (a rejected string is its own
  message; a plain object may have a \<^verbatim>\<open>message\<close> field), or carry none.
\<close>

datatype thrown = ErrorObj string | NonError "string option"

datatype outcome = Resolved query_result | Rejected thrown

text \<open>
  The component's state (the \<^verbatim>\<open>useState\<close> cells the handlers read and write)
  together with the two effects the handlers have on the outside: the toasts shown and
  the calls made to the external executor \<^verbatim>\<open>Query(connection, sql)\<close>, both oldest
  first. \<^verbatim>\<open>queryText\<close> is \<open>None\<close> when the buffer was set to \<^verbatim>\<open>undefined\<close>,
  which is what \<^verbatim>\<open>queryHistory[i]\<close> yields for an index out of range.
\<close>

record ui_state =
  queryText :: "string option"
  results :: "query_result option"
  queryHistory :: "string list"
  historyIndex :: int
  toasts :: "toast_msg list"
  executorCalls :: "(string \<times> string option) list"

text \<open>
  The state after mounting: \<^verbatim>\<open>initialState?.queryText ?? ""\<close>,
  \<^verbatim>\<open>initialState?.results ?? null\<close>, an empty history and the index \<open>-1\<close>.
\<close>

definition initial :: "(string \<times> query_result option) option \<Rightarrow> ui_state" where
  "initial initialState =
     \<lparr> queryText = (case initialState of None \<Rightarrow> Some [] | Some (q, _) \<Rightarrow> Some q),
       results = (case initialState of None \<Rightarrow> None | Some (_, r) \<Rightarrow> r),
       queryHistory = [],
       historyIndex = - 1,
       toasts = [],
       executorCalls = [] \<rparr>"

text \<open>
  \<^verbatim>\<open>!selectedConnection\<close> for the optional string prop: true for \<^verbatim>\<open>undefined\<close>
  and for the empty string.
\<close>

definition falsy :: "string option \<Rightarrow> bool" where
  "falsy v = (case v of None \<Rightarrow> True | Some s \<Rightarrow> s = [])"

text \<open>\<^verbatim>\<open>xs[i]\<close> of a JavaScript array: \<^verbatim>\<open>undefined\<close> out of range.\<close>

definition js_index :: "'a list \<Rightarrow> int \<Rightarrow> 'a option" where
  "js_index xs i = (if 0 \<le> i \<and> i < int (length xs) then Some (xs ! nat i) else None)"

text \<open>
  \<^verbatim>\<open>handleQuery\<close> is an async function with one \<^verbatim>\<open>await\<close>. Its synchronous part
  either returns (no connection: a toast, and nothing else) or calls the executor and
  suspends, holding the \<^verbatim>\<open>queryText\<close> of the render it was called in.
\<close>

datatype suspended = Returned ui_state | Awaiting string "string option" ui_state

definition handleQuery_call :: "string option \<Rightarrow> ui_state \<Rightarrow> suspended" where
  "handleQuery_call selectedConnection st =
     (case (if falsy selectedConnection then None else selectedConnection) of
        None \<Rightarrow>
          Returned (st\<lparr>toasts := toasts st @
            [\<lparr>title = ''Error'',
              description = ''Please select a connection first'',
              variant = ''destructive''\<rparr>]\<rparr>)
      | Some conn \<Rightarrow>
          Awaiting conn (queryText st)
            (st\<lparr>executorCalls := executorCalls st @ [(conn, queryText st)]\<rparr>))"

text \<open>
  The message of the \<^verbatim>\<open>TypeError\<close> that \<^verbatim>\<open>queryText.trim()\<close> throws when the
  buffer is \<^verbatim>\<open>undefined\<close> (the engine's wording; V8's is used).
\<close>

definition trim_of_undefined :: string where
  "trim_of_undefined = ''Cannot read properties of undefined (reading 'trim')''"

text \<open>
  The toast of the \<^verbatim>\<open>catch\<close> block:
  \<^verbatim>\<open>err instanceof Error ? err.message : "An error occurred"\<close>.
\<close>

definition query_error_toast :: "thrown \<Rightarrow> toast_msg" where
  "query_error_toast err =
     \<lparr>title = ''Query Error'',
      description = (case err of ErrorObj message \<Rightarrow> message | NonError _ \<Rightarrow> ''An error occurred''),
      variant = ''destructive''\<rparr>"

text \<open>
  The part of \<^verbatim>\<open>handleQuery\<close> after the \<^verbatim>\<open>await\<close>, run on the state of that
  moment with the settled promise. \<^verbatim>\<open>captured\<close> is the \<^verbatim>\<open>queryText\<close> the closure
  holds. On success \<^verbatim>\<open>setResults(result)\<close> runs first; \<^verbatim>\<open>queryText.trim()\<close> then
  throws inside the \<^verbatim>\<open>try\<close> when the text is \<^verbatim>\<open>undefined\<close>.
\<close>

definition handleQuery_resume :: "string option \<Rightarrow> outcome \<Rightarrow> ui_state \<Rightarrow> ui_state" where
  "handleQuery_resume captured out st =
     (case out of
        Resolved result \<Rightarrow>
          (let st1 = st\<lparr>results := Some result\<rparr> in
           case captured of
             None \<Rightarrow> st1\<lparr>toasts := toasts st1 @ [query_error_toast (ErrorObj trim_of_undefined)]\<rparr>
           | Some q \<Rightarrow>
               if trim q \<noteq> []
               then st1\<lparr>queryHistory := queryHistory st1 @ [q], historyIndex := - 1\<rparr>
               else st1)
      | Rejected err \<Rightarrow> st\<lparr>toasts := toasts st @ [query_error_toast err]\<rparr>)"

text \<open>
  One whole run with nothing in between: the call, then the executor's answer.
  \<^verbatim>\<open>Query\<close> is the external executor.
\<close>

definition handleQuery ::
  "string option \<Rightarrow> (string \<Rightarrow> string option \<Rightarrow> outcome) \<Rightarrow> ui_state \<Rightarrow> ui_state" where
  "handleQuery selectedConnection Query st =
     (case handleQuery_call selectedConnection st of
        Returned st' \<Rightarrow> st'
      | Awaiting conn q st' \<Rightarrow> handleQuery_resume q (Query conn q) st')"

text \<open>
  \<^verbatim>\<open>handleKeyDown\<close>. \<^verbatim>\<open>completionActive\<close> says whether
  \<^verbatim>\<open>document.querySelector('.cm-tooltip-autocomplete')\<close> found the popup;
  \<^verbatim>\<open>key\<close> is \<^verbatim>\<open>e.key\<close>.
\<close>

definition handleKeyDown :: "bool \<Rightarrow> string \<Rightarrow> ui_state \<Rightarrow> ui_state" where
  "handleKeyDown completionActive key st =
     (if completionActive then st
      else if key \<noteq> ''ArrowUp'' \<and> key \<noteq> ''ArrowDown'' then st
      else if length (queryHistory st) = 0 then st
      else
        (let lastIndex = int (length (queryHistory st)) - 1;
             newIndex = (if key = ''ArrowUp'' then min (historyIndex st + 1) lastIndex
                         else max (historyIndex st - 1) (- 1))
         in st\<lparr>historyIndex := newIndex,
               queryText := (if newIndex = - 1 then Some []
                             else js_index (queryHistory st) (lastIndex - newIndex))\<rparr>))"

text \<open>\<^verbatim>\<open>onChange={(value) => setQueryText(value)}\<close>.\<close>

definition onChange :: "string \<Rightarrow> ui_state \<Rightarrow> ui_state" where
  "onChange v st = st\<lparr>queryText := Some v\<rparr>"

subsection \<open>The operations of the history ring, as the component offers them\<close>

text \<open>
  What the user can do, one event at a time. A click on Run is \<open>Run\<close> when the
  executor answers before anything else happens.
\<close>

datatype event =
    Edit string
  | Run "string option" outcome
  | Call "string option"
  | Resume "string option" outcome
  | KeyDown bool string

fun dispatch :: "ui_state \<Rightarrow> event \<Rightarrow> ui_state" where
  "dispatch st (Edit v) = onChange v st"
| "dispatch st (Run conn out) = handleQuery conn (\<lambda>_ _. out) st"
| "dispatch st (Call conn) =
     (case handleQuery_call conn st of Returned st' \<Rightarrow> st' | Awaiting _ _ st' \<Rightarrow> st')"
| "dispatch st (Resume captured out) = handleQuery_resume captured out st"
| "dispatch st (KeyDown popup key) = handleKeyDown popup key st"

definition run_events :: "ui_state \<Rightarrow> event list \<Rightarrow> ui_state" where
  "run_events st evs = foldl dispatch st evs"

text \<open>
  \<open>submit q\<close>: the text \<open>q\<close> is in the buffer and is run on a selected connection;
  the executor resolves. \<open>recallOlder\<close> and \<open>recallNewer\<close> are the arrow keys.
\<close>

definition submit :: "string \<Rightarrow> query_result \<Rightarrow> event list" where
  "submit q r = [Edit q, Run (Some ''db'') (Resolved r)]"

definition recallOlder :: "bool \<Rightarrow> event" where
  "recallOlder popupVisible = KeyDown popupVisible ''ArrowUp''"

definition recallNewer :: "bool \<Rightarrow> event" where
  "recallNewer popupVisible = KeyDown popupVisible ''ArrowDown''"

text \<open>
  The history cursor is valid when it is \<open>-1\<close> or an index into the entries.
\<close>

definition cursor_valid :: "ui_state \<Rightarrow> bool" where
  "cursor_valid st =
     (- 1 \<le> historyIndex st \<and> historyIndex st \<le> int (length (queryHistory st)) - 1)"


section \<open>Regular expressions, as ECMAScript matches them\<close>

text \<open>
  \<^verbatim>\<open>\w\<close> is \<^verbatim>\<open>[A-Za-z0-9_]\<close>. Under the \<^verbatim>\<open>i\<close> flag (without \<^verbatim>\<open>u\<close>) two
  characters match when their canonical forms agree; every literal letter of the
  patterns below is ASCII, and for those the canonical form of a code unit is its
  ASCII upper case (a code unit of 128 or more never canonicalizes to one below 128).
\<close>

definition is_word_char :: "char \<Rightarrow> bool" where
  "is_word_char c =
     (let n = (of_char c :: nat)
      in (48 \<le> n \<and> n \<le> 57) \<or> (65 \<le> n \<and> n \<le> 90) \<or> n = 95 \<or> (97 \<le> n \<and> n \<le> 122))"

definition canonicalize :: "char \<Rightarrow> char" where
  "canonicalize c =
     (let n = (of_char c :: nat) in if 97 \<le> n \<and> n \<le> 122 then char_of (n - 32) else c)"

text \<open>
  What matches one character: a literal, \<^verbatim>\<open>\s\<close>, \<^verbatim>\<open>\w\<close>, or a negated class
  \<^verbatim>\<open>[^...]\<close> of these.
\<close>

datatype atom = Chr char | Space | Word | NoneOf "atom list"

fun atom_matches :: "bool \<Rightarrow> atom \<Rightarrow> char \<Rightarrow> bool" where
  "atom_matches ic (Chr c) ch = (if ic then canonicalize c = canonicalize ch else c = ch)"
| "atom_matches ic Space ch = is_space ch"
| "atom_matches ic Word ch = is_word_char ch"
| "atom_matches ic (NoneOf as) ch = list_all (\<lambda>a. \<not> atom_matches ic a ch) as"

text \<open>
  The patterns: sequence, alternative \<^verbatim>\<open>|\<close>, the greedy quantifiers \<^verbatim>\<open>*\<close> and
  \<^verbatim>\<open>?\<close>, the capturing parentheses with their number, \<^verbatim>\<open>\b\<close> and \<^verbatim>\<open>$\<close>.
  Parentheses \<^verbatim>\<open>(?:...)\<close> only group. \<^verbatim>\<open>r+\<close> is \<^verbatim>\<open>r\<close> followed by \<^verbatim>\<open>r*\<close>.
\<close>

datatype regex =
    Empty
  | Atom atom
  | Seq regex regex
  | Alt regex regex
  | Star regex
  | Opt regex
  | Group nat regex
  | WordBoundary
  | EndOfInput

definition OneOrMore :: "regex \<Rightarrow> regex" where
  "OneOrMore r = Seq r (Star r)"

fun seq :: "regex list \<Rightarrow> regex" where
  "seq [] = Empty"
| "seq [r] = r"
| "seq (r # rs) = Seq r (seq rs)"

fun alt :: "regex list \<Rightarrow> regex" where
  "alt [] = Empty"
| "alt [r] = r"
| "alt (r # rs) = Alt r (alt rs)"

definition lit :: "string \<Rightarrow> regex" where
  "lit s = seq (map (\<lambda>c. Atom (Chr c)) s)"

text \<open>
  The matcher's state: the index reached in the input, and the captures as spans
  \<open>(start, end)\<close> of the input.
\<close>

record mstate =
  endIndex :: nat
  captures :: "nat \<rightharpoonup> nat \<times> nat"

text \<open>\<^verbatim>\<open>IsWordChar(e)\<close>: false before the first and after the last character.\<close>

definition is_word_at :: "string \<Rightarrow> int \<Rightarrow> bool" where
  "is_word_at s i = (0 \<le> i \<and> i < int (length s) \<and> is_word_char (s ! nat i))"

text \<open>
  An iteration of \<^verbatim>\<open>*\<close> or \<^verbatim>\<open>?\<close> that consumed nothing is rejected
  (RepeatMatcher, step 2.b): the state after it must have fewer characters left.
\<close>

definition consumed :: "string \<Rightarrow> mstate \<Rightarrow> mstate \<Rightarrow> bool" where
  "consumed s x y = (length s - endIndex y < length s - endIndex x)"

text \<open>
  The backtracking matcher. \<open>matches ic s r x\<close> lists the states in which \<open>r\<close> can
  end when started in \<open>x\<close> on the input \<open>s\<close>, in the order in which backtracking tries
  them: the continuation is run on the first, and on the next when that fails. A
  greedy quantifier tries one more iteration before it tries to stop.
\<close>

function matches :: "bool \<Rightarrow> string \<Rightarrow> regex \<Rightarrow> mstate \<Rightarrow> mstate list" where
  "matches ic s Empty x = [x]"
| "matches ic s (Atom a) x =
     (if endIndex x < length s \<and> atom_matches ic a (s ! endIndex x)
      then [x\<lparr>endIndex := endIndex x + 1\<rparr>] else [])"
| "matches ic s (Seq r1 r2) x = concat (map (matches ic s r2) (matches ic s r1 x))"
| "matches ic s (Alt r1 r2) x = matches ic s r1 x @ matches ic s r2 x"
| "matches ic s (Star r) x =
     concat (map (matches ic s (Star r)) (filter (consumed s x) (matches ic s r x))) @ [x]"
| "matches ic s (Opt r) x = filter (consumed s x) (matches ic s r x) @ [x]"
| "matches ic s (Group n r) x =
     map (\<lambda>y. y\<lparr>captures := (captures y)(n \<mapsto> (endIndex x, endIndex y))\<rparr>) (matches ic s r x)"
| "matches ic s WordBoundary x =
     (if is_word_at s (int (endIndex x) - 1) \<noteq> is_word_at s (int (endIndex x)) then [x] else [])"
| "matches ic s EndOfInput x = (if endIndex x = length s then [x] else [])"
  by pat_completeness auto
termination
  by (relation "inv_image (less_than <*lex*> less_than)
        (\<lambda>(ic, s, r, x). (size r, length s - endIndex x))")
     (auto simp: consumed_def)

text \<open>
  \<^verbatim>\<open>RegExpBuiltinExec\<close>: from \<open>lastIndex\<close> on, the first index at which the pattern
  matches, with the first state the matcher ends in; \<open>None\<close> is \<^verbatim>\<open>null\<close>. A regular
  expression with the \<^verbatim>\<open>g\<close> flag starts at its \<^verbatim>\<open>lastIndex\<close> and stores the end of
  the match there; one without starts at 0.
\<close>

function regexp_exec :: "bool \<Rightarrow> regex \<Rightarrow> string \<Rightarrow> nat \<Rightarrow> (nat \<times> mstate) option" where
  "regexp_exec ic r s lastIndex =
     (if lastIndex > length s then None
      else case matches ic s r \<lparr>endIndex = lastIndex, captures = Map.empty\<rparr> of
             [] \<Rightarrow> regexp_exec ic r s (lastIndex + 1)
           | y # _ \<Rightarrow> Some (lastIndex, y))"
  by pat_completeness auto
termination
  by (relation "measure (\<lambda>(ic, r, s, i). length s + 1 - i)") auto

text \<open>\<^verbatim>\<open>s.substring(b, e)\<close> for a capture's span, and \<^verbatim>\<open>match[n]\<close>.\<close>

definition substring :: "string \<Rightarrow> nat \<times> nat \<Rightarrow> string" where
  "substring s be = take (snd be - fst be) (drop (fst be) s)"

definition matched :: "string \<Rightarrow> mstate \<Rightarrow> nat \<Rightarrow> string option" where
  "matched s m n = map_option (substring s) (captures m n)"

text \<open>
  \<^verbatim>\<open>regex.test(v)\<close> for a pattern without the \<^verbatim>\<open>g\<close> flag. The argument is
  converted to a string first: \<^verbatim>\<open>undefined\<close> becomes the text \<^verbatim>\<open>undefined\<close>.
\<close>

definition to_string :: "string option \<Rightarrow> string" where
  "to_string v = (case v of None \<Rightarrow> ''undefined'' | Some s \<Rightarrow> s)"

definition regexp_test :: "bool \<Rightarrow> regex \<Rightarrow> string option \<Rightarrow> bool" where
  "regexp_test ic r v = (regexp_exec ic r (to_string v) 0 \<noteq> None)"

section \<open>monaco-editor.tsx: table names and aliases\<close>

text \<open>
  \<^verbatim>\<open>/\b(?:FROM|JOIN)\s+([^\s.]+(?:\.[^\s.]+)?)\s*(?:AS)?\s*([^\s,]+)?/gi\<close>
\<close>

definition from_join :: regex where
  "from_join = seq
     [WordBoundary, Alt (lit ''FROM'') (lit ''JOIN''), OneOrMore (Atom Space),
      Group 1 (seq [OneOrMore (Atom (NoneOf [Space, Chr CHR ''.''])),
                    Opt (seq [Atom (Chr CHR ''.''), OneOrMore (Atom (NoneOf [Space, Chr CHR ''.'']))])]),
      Star (Atom Space), Opt (lit ''AS''), Star (Atom Space),
      Opt (Group 2 (OneOrMore (Atom (NoneOf [Space, Chr CHR '',''])))) ]"

text \<open>\<^verbatim>\<open>/\(/\<close> and \<^verbatim>\<open>/on|where|inner|left|right|join/\<close>, both without flags.\<close>

definition paren :: regex where
  "paren = Atom (Chr CHR ''('')"

definition reserved_words :: regex where
  "reserved_words = alt [lit ''on'', lit ''where'', lit ''inner'', lit ''left'', lit ''right'', lit ''join'']"

text \<open>
  An element of \<^verbatim>\<open>tables\<close>, \<^verbatim>\<open>{table_name, alias}\<close> (the field \<^verbatim>\<open>alias\<close> is
  written \<open>alias'\<close>). A capture that did not take part in the match is
  \<^verbatim>\<open>undefined\<close>, here \<open>None\<close>, and so is \<^verbatim>\<open>null\<close>.
\<close>

record table_ref =
  table_name :: "string option"
  alias' :: "string option"

text \<open>
  The \<^verbatim>\<open>while (true)\<close> loop of \<^verbatim>\<open>parseSqlAndFindTableNameAndAliases\<close>: its state
  is the \<^verbatim>\<open>lastIndex\<close> of the regular expression and the array \<^verbatim>\<open>tables\<close>. The
  loop has no bound of its own, so not returning is the value \<open>None\<close>.
\<close>

partial_function (option) parse_loop :: "string \<Rightarrow> nat \<Rightarrow> table_ref list \<Rightarrow> table_ref list option" where
  "parse_loop sql lastIndex tables =
     (case regexp_exec True from_join sql lastIndex of
        None \<Rightarrow> Some tables
      | Some (i, match) \<Rightarrow>
          (let table_name = matched sql match 1 in
           if \<not> regexp_test False paren table_name
           then
             (let alias = matched sql match 2;
                  alias = (if \<not> falsy alias \<and> regexp_test False reserved_words alias then None else alias)
              in parse_loop sql (endIndex match)
                   (tables @ [\<lparr>table_name = table_name,
                                alias' = (if \<not> falsy alias then alias else table_name)\<rparr>]))
           else parse_loop sql (endIndex match) tables))"

declare parse_loop.simps [code]

definition parseSqlAndFindTableNameAndAliases :: "string \<Rightarrow> table_ref list option" where
  "parseSqlAndFindTableNameAndAliases sql = parse_loop sql 0 []"

section \<open>monaco-editor.tsx: the completion provider\<close>

text \<open>
  The editor's objects the provider reads: a position, a range, the answer of
  \<^verbatim>\<open>getWordUntilPosition\<close>, and the text model with the three methods the provider
  calls. The editor is not part of the repository; a model is whatever answers these
  calls.
\<close>

record position =
  lineNumber :: nat
  column :: nat

record range =
  startLineNumber :: nat
  startColumn :: nat
  endLineNumber :: nat
  endColumn :: nat

record word_at_position =
  word :: string
  word_startColumn :: nat
  word_endColumn :: nat

record text_model =
  getValue :: string
  getValueInRange :: "range \<Rightarrow> string"
  getWordUntilPosition :: "position \<Rightarrow> word_at_position"

datatype completion_kind = Snippet | Field

datatype insert_text_rule = NoRule | KeepWhitespace | InsertAsSnippet

record completion_item =
  label :: string
  kind :: completion_kind
  insertText :: string
  insertTextRules :: insert_text_rule
  documentation :: string
  item_range :: range

text \<open>
  \<^verbatim>\<open>s.split(" ")\<close>: the pieces between the occurrences of the separator, never an
  empty array. \<^verbatim>\<open>xs.substring(-1)\<close>: the array of the last element, if there is one.
\<close>

fun split :: "char \<Rightarrow> string \<Rightarrow> string list" where
  "split sep [] = [[]]"
| "split sep (c # cs) =
     (if c = sep then [] # split sep cs
      else (case split sep cs of [] \<Rightarrow> [[c]] | w # ws \<Rightarrow> (c # w) # ws))"

definition slice_last :: "'a list \<Rightarrow> 'a list" where
  "slice_last xs = (if xs = [] then [] else [last xs])"

text \<open>\<^verbatim>\<open>new Map(pairs)\<close>: the pairs are set one after the other, the later one wins.\<close>

definition new_Map :: "('k \<times> 'v) list \<Rightarrow> ('k \<rightharpoonup> 'v)" where
  "new_Map pairs = foldl (\<lambda>m (k, v). m(k \<mapsto> v)) Map.empty pairs"

text \<open>
  \<^verbatim>\<open>/\s?(\w+)\s+\w+$/\<close> and \<^verbatim>\<open>/(\w+)\.\w*$/\<close>.
\<close>

definition before_space :: regex where
  "before_space = seq [Opt (Atom Space), Group 1 (OneOrMore (Atom Word)), OneOrMore (Atom Space),
                       OneOrMore (Atom Word), EndOfInput]"

definition before_dot :: regex where
  "before_dot = seq [Group 1 (OneOrMore (Atom Word)), Atom (Chr CHR ''.''), Star (Atom Word),
                     EndOfInput]"

text \<open>\<^verbatim>\<open>regex.exec(s)?.[n]\<close> for a pattern without the \<^verbatim>\<open>g\<close> flag.\<close>

definition exec_group :: "regex \<Rightarrow> string \<Rightarrow> nat \<Rightarrow> string option" where
  "exec_group r s n = (case regexp_exec False r s 0 of None \<Rightarrow> None | Some (_, m) \<Rightarrow> matched s m n)"

text \<open>
  \<^verbatim>\<open>thisLine.trim().split(" ").substring(-1)?.[0] || ""\<close>
\<close>

definition thisToken_of :: "string \<Rightarrow> string" where
  "thisToken_of thisLine =
     (let v = js_index (slice_last (split CHR '' '' (trim thisLine))) 0
      in if \<not> falsy v then to_string v else [])"

text \<open>
  What the provider computes before it answers, as \<^verbatim>\<open>console.log\<close> prints it.
\<close>

record completion_locals =
  tableNamesAndAliases :: "string option \<rightharpoonup> string option"
  thisToken :: string
  lastTokenBeforeSpace :: "string option"
  lastTokenBeforeDot :: "string option"

text \<open>
  The \<^verbatim>\<open>if (lastTokenBeforeDot)\<close> block: the local \<^verbatim>\<open>table_name\<close>, which is
  \<^verbatim>\<open>null\<close> unless \<^verbatim>\<open>tableNamesAndAliases.get(lastTokenBeforeDot)\<close> is truthy.
  Nothing reads it afterwards.
\<close>

definition Map_get :: "('k \<rightharpoonup> 'v option) \<Rightarrow> 'k \<Rightarrow> 'v option" where
  "Map_get m k = (case m k of None \<Rightarrow> None | Some v \<Rightarrow> v)"

definition resolved_table :: "completion_locals \<Rightarrow> string option" where
  "resolved_table l =
     (if \<not> falsy (lastTokenBeforeDot l)
      then (if \<not> falsy (Map_get (tableNamesAndAliases l) (lastTokenBeforeDot l))
            then Map_get (tableNamesAndAliases l) (lastTokenBeforeDot l) else None)
      else None)"

text \<open>
  The \<^verbatim>\<open>return\<close> statement, \<^verbatim>\<open>return { suggestions }\<close>: the array goes out as
  it is (the \<^verbatim>\<open>uniqBy\<close> around it is commented out).
\<close>

definition respond :: "completion_item list \<Rightarrow> completion_item list" where
  "respond suggestions = suggestions"

text \<open>
  \<^verbatim>\<open>provideCompletionItems(model, position, ...)\<close>: the printed locals and the
  \<^verbatim>\<open>suggestions\<close> it returns. It returns when the scan of the text does.
\<close>

definition provideCompletionItems ::
  "text_model \<Rightarrow> position \<Rightarrow> (completion_locals \<times> completion_item list) option" where
  "provideCompletionItems model position =
     (let word = getWordUntilPosition model position;
          range = \<lparr>startLineNumber = lineNumber position,
                   startColumn = word_startColumn word,
                   endLineNumber = lineNumber position,
                   endColumn = word_endColumn word\<rparr>;
          suggestions =
            [\<lparr>label = ''myCustomSnippet'',
              kind = Snippet,
              insertText = ''This is a piece of custom code'',
              insertTextRules = InsertAsSnippet,
              documentation = ''This is a piece of custom code'',
              item_range = range\<rparr>];
          fullQueryText = getValue model
      in case parseSqlAndFindTableNameAndAliases fullQueryText of
           None \<Rightarrow> None
         | Some tables \<Rightarrow>
             (let tableNamesAndAliases = new_Map (map (\<lambda>t. (alias' t, table_name t)) tables);
                  thisLine = getValueInRange model
                    \<lparr>startLineNumber = lineNumber position,
                     startColumn = 1,
                     endLineNumber = lineNumber position,
                     endColumn = column position\<rparr>;
                  thisToken = thisToken_of thisLine;
                  lastTokenBeforeSpace = exec_group before_space (trim thisLine) 1;
                  lastTokenBeforeDot = exec_group before_dot thisToken 1;
                  locals = \<lparr>tableNamesAndAliases = tableNamesAndAliases,
                            thisToken = thisToken,
                            lastTokenBeforeSpace = lastTokenBeforeSpace,
                            lastTokenBeforeDot = lastTokenBeforeDot\<rparr>;
                  table_name = resolved_table locals
              in Some (locals, respond suggestions)))"

section \<open>Notions used to state the properties\<close>

text \<open>
  The least number of characters a pattern consumes, and the numbers of the capturing
  parentheses in it.
\<close>

fun min_len :: "regex \<Rightarrow> nat" where
  "min_len Empty = 0"
| "min_len (Atom a) = 1"
| "min_len (Seq r1 r2) = min_len r1 + min_len r2"
| "min_len (Alt r1 r2) = min (min_len r1) (min_len r2)"
| "min_len (Star r) = 0"
| "min_len (Opt r) = 0"
| "min_len (Group n r) = min_len r"
| "min_len WordBoundary = 0"
| "min_len EndOfInput = 0"

fun groups_of :: "regex \<Rightarrow> nat set" where
  "groups_of (Seq r1 r2) = groups_of r1 \<union> groups_of r2"
| "groups_of (Alt r1 r2) = groups_of r1 \<union> groups_of r2"
| "groups_of (Star r) = groups_of r"
| "groups_of (Opt r) = groups_of r"
| "groups_of (Group n r) = insert n (groups_of r)"
| "groups_of _ = {}"

text \<open>
  The parts of \<open>from_join\<close>: \<^verbatim>\<open>[^\s.]\<close>, the first capture
  \<^verbatim>\<open>([^\s.]+(?:\.[^\s.]+)?)\<close>, and what follows it,
  \<^verbatim>\<open>\s*(?:AS)?\s*([^\s,]+)?\<close>.
\<close>

definition name_char :: atom where
  "name_char = NoneOf [Space, Chr CHR ''.'']"

definition table_group :: regex where
  "table_group = Group 1 (Seq (OneOrMore (Atom name_char))
     (Opt (Seq (Atom (Chr CHR ''.'')) (OneOrMore (Atom name_char)))))"

definition alias_tail :: regex where
  "alias_tail = seq [Star (Atom Space), Opt (lit ''AS''), Star (Atom Space),
     Opt (Group 2 (OneOrMore (Atom (NoneOf [Space, Chr CHR '','']))))]"

text \<open>
  \<open>table_segment sql t (b, e)\<close>: the table name of the reference \<open>t\<close> is the
  segment of \<open>sql\<close> from \<open>b\<close> up to \<open>e\<close>, which a match of \<open>from_join\<close> somewhere
  in \<open>sql\<close> captured first. \<open>table_ok\<close>: there is such a segment, it is not empty,
  it has no \<^verbatim>\<open>(\<close> in it and none right after it.
\<close>

definition table_segment :: "string \<Rightarrow> table_ref \<Rightarrow> nat \<times> nat \<Rightarrow> bool" where
  "table_segment sql t be =
     (\<exists>i j m. regexp_exec True from_join sql i = Some (j, m) \<and> captures m 1 = Some be
        \<and> table_name t = Some (substring sql be))"

definition table_ok :: "string \<Rightarrow> table_ref \<Rightarrow> bool" where
  "table_ok sql t =
     (\<exists>b e. table_segment sql t (b, e) \<and> b < e \<and> e \<le> length sql
        \<and> \<not> (e < length sql \<and> sql ! e = CHR ''('')
        \<and> CHR ''('' \<notin> set (substring sql (b, e)))"

text \<open>
  The resolver's token in the spec's words: the last white-space-delimited token of
  the trimmed line prefix, that is, the characters after the last white space of the
  trimmed prefix.
\<close>

definition last_whitespace_token :: "string \<Rightarrow> string" where
  "last_whitespace_token linePrefix = rev (takeWhile (\<lambda>c. \<not> is_space c) (rev (trim linePrefix)))"

text \<open>
  An editor model holding one line of text, to run the provider on: the value in a
  range of line 1 is the text between the two columns (columns count from 1), and the
  word until a position is the run of word characters that ends there.
\<close>

definition one_line_model :: "string \<Rightarrow> text_model" where
  "one_line_model line =
     \<lparr>getValue = line,
      getValueInRange = (\<lambda>r. take (endColumn r - startColumn r) (drop (startColumn r - 1) line)),
      getWordUntilPosition = (\<lambda>p.
        let w = rev (takeWhile is_word_char (rev (take (column p - 1) line)))
        in \<lparr>word = w, word_startColumn = column p - length w, word_endColumn = column p\<rparr>)\<rparr>"

text \<open>
  The static candidate the provider starts \<^verbatim>\<open>suggestions\<close> with, for a given range,
  and the range the provider builds from \<^verbatim>\<open>getWordUntilPosition\<close>.
\<close>

definition myCustomSnippet :: "range \<Rightarrow> completion_item" where
  "myCustomSnippet r =
     \<lparr>label = ''myCustomSnippet'',
      kind = Snippet,
      insertText = ''This is a piece of custom code'',
      insertTextRules = InsertAsSnippet,
      documentation = ''This is a piece of custom code'',
      item_range = r\<rparr>"

definition word_range :: "text_model \<Rightarrow> position \<Rightarrow> range" where
  "word_range model position =
     \<lparr>startLineNumber = lineNumber position,
      startColumn = word_startColumn (getWordUntilPosition model position),
      endLineNumber = lineNumber position,
      endColumn = word_endColumn (getWordUntilPosition model position)\<rparr>"

section \<open>Properties of the query component\<close>

lemma trim_examples: "trim ''A'' = ''A''" "trim '''' = ''''" "trim ''B'' = ''B''"
  by (simp_all add: trim_def is_space_def)

lemma cursor_valid_dispatch: "cursor_valid st \<Longrightarrow> cursor_valid (dispatch st ev)"
  by (cases ev)
     (auto simp: cursor_valid_def onChange_def handleQuery_def handleQuery_call_def
        handleQuery_resume_def handleKeyDown_def Let_def
        split: option.splits outcome.splits suspended.splits if_splits)

lemma cursor_valid_run: "cursor_valid st \<Longrightarrow> cursor_valid (run_events st evs)"
  unfolding run_events_def
  by (induction evs arbitrary: st) (simp_all add: cursor_valid_dispatch)

text \<open>
  C3. From an empty history, submitting \<open>A\<close>, the empty text and \<open>B\<close> leaves the
  entries \<open>[A, B]\<close>; ArrowUp, ArrowUp, ArrowDown then put \<open>B\<close>, \<open>A\<close> and \<open>B\<close> in
  the buffer; and ArrowUp while the completion popup is there leaves the buffer of any
  state as it is.
\<close>

theorem history_example:
  "queryHistory (run_events (initial None) (submit ''A'' r1 @ submit '''' r2 @ submit ''B'' r3))
     = [''A'', ''B'']
   \<and> queryText (run_events (initial None)
        (submit ''A'' r1 @ submit '''' r2 @ submit ''B'' r3 @ [recallOlder False])) = Some ''B''
   \<and> queryText (run_events (initial None)
        (submit ''A'' r1 @ submit '''' r2 @ submit ''B'' r3
           @ [recallOlder False, recallOlder False])) = Some ''A''
   \<and> queryText (run_events (initial None)
        (submit ''A'' r1 @ submit '''' r2 @ submit ''B'' r3
           @ [recallOlder False, recallOlder False, recallNewer False])) = Some ''B''
   \<and> queryText (dispatch st (recallOlder True)) = queryText st"
  by (simp add: run_events_def submit_def recallOlder_def recallNewer_def initial_def
        onChange_def handleQuery_def handleQuery_call_def handleQuery_resume_def falsy_def
        handleKeyDown_def js_index_def Let_def trim_examples)




text \<open>
  C6. With no connection selected (the prop is \<^verbatim>\<open>undefined\<close> or empty) the
  synchronous part of \<^verbatim>\<open>handleQuery\<close> returns without reaching the \<^verbatim>\<open>await\<close>,
  having shown the validation toast; no call to the executor is recorded, and the run
  is the same whatever the executor would have answered.
\<close>

theorem run_without_connection:
  assumes "falsy selectedConnection"
  shows "handleQuery_call selectedConnection st =
       Returned (st\<lparr>toasts := toasts st @
         [\<lparr>title = ''Error'', description = ''Please select a connection first'',
           variant = ''destructive''\<rparr>]\<rparr>)
    \<and> executorCalls (handleQuery selectedConnection Query st) = executorCalls st
    \<and> handleQuery selectedConnection Query st = handleQuery selectedConnection Query' st"
  using assms
  by (simp add: handleQuery_def handleQuery_call_def)

theorem run_without_connection_witness:
  "handleQuery_call None (initial None) =
       Returned ((initial None)\<lparr>toasts := toasts (initial None) @
         [\<lparr>title = ''Error'', description = ''Please select a connection first'',
           variant = ''destructive''\<rparr>]\<rparr>)
   \<and> executorCalls (handleQuery None (\<lambda>_ _. Rejected (NonError None)) (initial None))
       = executorCalls (initial None)
   \<and> handleQuery None (\<lambda>_ _. Rejected (NonError None)) (initial None)
       = handleQuery None (\<lambda>_ _. Resolved \<lparr>columns = [], rows = []\<rparr>) (initial None)"
proof -
  have "falsy None"
    by (simp add: falsy_def)
  then show ?thesis
    by (rule run_without_connection)
qed

text \<open>
  C9. After any sequence of events from the mounted component (edits, runs with any
  connection and any answer of the executor, the two halves of a run taken apart, key
  presses with or without the popup) the history cursor is \<open>-1\<close> or an index into the
  entries. ArrowUp at the oldest entry stays there, and ArrowDown at \<open>-1\<close> stays at
  \<open>-1\<close>.
\<close>

theorem history_cursor_valid:
  "cursor_valid (run_events (initial i) evs)
   \<and> historyIndex (handleKeyDown False ''ArrowUp''
        (st\<lparr>historyIndex := int (length (queryHistory st)) - 1\<rparr>))
       = int (length (queryHistory st)) - 1
   \<and> historyIndex (handleKeyDown False ''ArrowDown'' (st\<lparr>historyIndex := - 1\<rparr>)) = - 1"
proof -
  have "cursor_valid (initial i)"
    by (simp add: cursor_valid_def initial_def)
  then have "cursor_valid (run_events (initial i) evs)"
    by (rule cursor_valid_run)
  moreover have "historyIndex (handleKeyDown False ''ArrowUp''
        (st\<lparr>historyIndex := int (length (queryHistory st)) - 1\<rparr>))
       = int (length (queryHistory st)) - 1"
    by (simp add: handleKeyDown_def Let_def)
  moreover have "historyIndex (handleKeyDown False ''ArrowDown'' (st\<lparr>historyIndex := - 1\<rparr>)) = - 1"
    by (simp add: handleKeyDown_def Let_def)
  ultimately show ?thesis by simp
qed

text \<open>
  C10. A run whose executor rejects leaves the history entries and the history cursor
  as they were: in a whole run, and in the part after the \<^verbatim>\<open>await\<close> whatever text
  the closure holds and whatever the state has become meanwhile.
\<close>

theorem failed_run_history_unchanged:
  assumes "Query conn (queryText st) = Rejected err"
  shows "queryHistory (handleQuery (Some conn) Query st) = queryHistory st
    \<and> historyIndex (handleQuery (Some conn) Query st) = historyIndex st
    \<and> queryHistory (handleQuery_resume captured (Rejected err) st') = queryHistory st'
    \<and> historyIndex (handleQuery_resume captured (Rejected err) st') = historyIndex st'"
  using assms
  by (simp add: handleQuery_def handleQuery_call_def handleQuery_resume_def)

theorem failed_run_history_unchanged_witness:
  "queryHistory (handleQuery (Some ''db'') (\<lambda>_ _. Rejected (ErrorObj ''syntax error''))
      (run_events (initial None) (submit ''A'' \<lparr>columns = [], rows = []\<rparr> @ [recallOlder False, Edit ''B'']))) = [''A'']
   \<and> historyIndex (handleQuery (Some ''db'') (\<lambda>_ _. Rejected (ErrorObj ''syntax error''))
      (run_events (initial None) (submit ''A'' \<lparr>columns = [], rows = []\<rparr> @ [recallOlder False, Edit ''B'']))) = 0"
  using failed_run_history_unchanged [of "\<lambda>_ _. Rejected (ErrorObj ''syntax error'')" "''db''"
      "run_events (initial None) (submit ''A'' \<lparr>columns = [], rows = []\<rparr> @ [recallOlder False, Edit ''B''])"
      "ErrorObj ''syntax error''"]
  by (simp add: run_events_def submit_def recallOlder_def initial_def
        onChange_def handleQuery_def handleQuery_call_def handleQuery_resume_def falsy_def
        handleKeyDown_def js_index_def Let_def trim_examples)

section \<open>Properties of the matcher\<close>

declare matches.simps [simp del]

lemmas matches_plain = matches.simps(1,2,4,6,7,8,9)

lemma matches_min_len:
  "y \<in> set (matches ic s r x) \<Longrightarrow> endIndex x \<le> length s \<Longrightarrow>
     endIndex x + min_len r \<le> endIndex y \<and> endIndex y \<le> length s"
proof (induction ic s r x arbitrary: y rule: matches.induct)
  case (3 ic s r1 r2 x)
  from "3.prems"(1) obtain z where z: "z \<in> set (matches ic s r1 x)" "y \<in> set (matches ic s r2 z)"
    by (auto simp: matches.simps(3))
  from "3.IH"(1) [OF z(1) "3.prems"(2)]
  have b1: "endIndex x + min_len r1 \<le> endIndex z" "endIndex z \<le> length s" by simp_all
  from "3.IH"(2) [OF z(1) z(2) b1(2)] b1 show ?case by auto
next
  case (5 ic s r x)
  show ?case
  proof (cases "y = x")
    case True
    with "5.prems" show ?thesis by simp
  next
    case False
    with "5.prems"(1) obtain z where z: "z \<in> set (matches ic s r x)" "consumed s x z"
        "y \<in> set (matches ic s (Star r) z)"
      by (subst (asm) matches.simps(5)) auto
    from "5.IH"(1) [OF z(1) "5.prems"(2)] have b1: "endIndex x \<le> endIndex z" "endIndex z \<le> length s"
      by simp_all
    from z(1,2) have "z \<in> set (filter (consumed s x) (matches ic s r x))" by simp
    from "5.IH"(2) [OF this z(3) b1(2)] b1 show ?thesis by auto
  qed
next
  case (4 ic s r1 r2 x)
  from "4.prems"(1) have "y \<in> set (matches ic s r1 x) \<or> y \<in> set (matches ic s r2 x)"
    by (simp add: matches.simps(4))
  then show ?case
  proof
    assume "y \<in> set (matches ic s r1 x)"
    from "4.IH"(1) [OF this "4.prems"(2)] show ?thesis by auto
  next
    assume "y \<in> set (matches ic s r2 x)"
    from "4.IH"(2) [OF this "4.prems"(2)] show ?thesis by auto
  qed
next
  case (6 ic s r x)
  from "6.prems"(1) have "y \<in> set (matches ic s r x) \<or> y = x"
    by (auto simp: matches.simps(6))
  then show ?case
  proof
    assume "y \<in> set (matches ic s r x)"
    from "6.IH" [OF this "6.prems"(2)] show ?thesis by auto
  next
    assume "y = x"
    with "6.prems"(2) show ?thesis by simp
  qed
next
  case (7 ic s n r x)
  from "7.prems"(1) obtain z where "z \<in> set (matches ic s r x)" "endIndex y = endIndex z"
    by (auto simp: matches.simps(7))
  with "7.IH" [OF this(1) "7.prems"(2)] show ?case by auto
qed (auto simp: matches.simps(1,2,8,9) split: if_splits)

text \<open>
  On the states the matcher produces, \<open>consumed\<close> is the check of ECMAScript: the
  end index after the iteration differs from the one before.
\<close>

lemma consumed_iff:
  assumes "y \<in> set (matches ic s r x)" and "endIndex x \<le> length s"
  shows "consumed s x y \<longleftrightarrow> endIndex y \<noteq> endIndex x"
  using matches_min_len [OF assms] unfolding consumed_def by arith

lemma matches_captures:
  "y \<in> set (matches ic s r x) \<Longrightarrow> n \<notin> groups_of r \<Longrightarrow> captures y n = captures x n"
proof (induction ic s r x arbitrary: y rule: matches.induct)
  case (3 ic s r1 r2 x)
  from "3.prems"(1) obtain z where z: "z \<in> set (matches ic s r1 x)" "y \<in> set (matches ic s r2 z)"
    by (auto simp: matches.simps(3))
  from "3.IH"(1) [OF z(1)] "3.IH"(2) [OF z(1) z(2)] "3.prems"(2) show ?case by simp
next
  case (5 ic s r x)
  show ?case
  proof (cases "y = x")
    case True
    then show ?thesis by simp
  next
    case False
    with "5.prems"(1) obtain z where z: "z \<in> set (matches ic s r x)" "consumed s x z"
        "y \<in> set (matches ic s (Star r) z)"
      by (subst (asm) matches.simps(5)) auto
    from z(1,2) have "z \<in> set (filter (consumed s x) (matches ic s r x))" by simp
    from "5.IH"(2) [OF this z(3)] "5.IH"(1) [OF z(1)] "5.prems"(2) show ?thesis by simp
  qed
qed (auto simp: matches_plain split: if_splits)

lemma filter_consumed:
  assumes "0 < min_len r" and "endIndex x \<le> length s"
  shows "filter (consumed s x) (matches ic s r x) = matches ic s r x"
proof -
  have "consumed s x y" if "y \<in> set (matches ic s r x)" for y
    using matches_min_len [OF that assms(2)] assms(1) unfolding consumed_def by arith
  then show ?thesis by simp
qed

lemma concat_map_first:
  "concat (map f xs) = y # ys \<Longrightarrow> \<exists>x \<in> set xs. \<exists>zs. f x = y # zs"
proof (induction xs)
  case Nil
  then show ?case by simp
next
  case (Cons a xs)
  then show ?case by (cases "f a") auto
qed

lemma concat_map_head:
  assumes "concat (map f xs) = y # ys" and "\<And>x. f x \<noteq> []"
  shows "\<exists>x xs' zs. xs = x # xs' \<and> f x = y # zs"
proof (cases xs)
  case Nil
  with assms(1) show ?thesis by simp
next
  case (Cons a xs')
  with assms show ?thesis by (cases "f a") auto
qed

lemma star_atom_first:
  "matches ic s (Star (Atom a)) x = y # ys \<Longrightarrow>
     captures y = captures x \<and> endIndex x \<le> endIndex y
     \<and> \<not> (endIndex y < length s \<and> atom_matches ic a (s ! endIndex y))"
proof (induction "length s - endIndex x" arbitrary: x y ys rule: less_induct)
  case less
  show ?case
  proof (cases "endIndex x < length s \<and> atom_matches ic a (s ! endIndex x)")
    case True
    let ?x' = "x\<lparr>endIndex := endIndex x + 1\<rparr>"
    from True have c: "consumed s x ?x'" by (auto simp: consumed_def)
    with True have eq: "matches ic s (Star (Atom a)) x = matches ic s (Star (Atom a)) ?x' @ [x]"
      by (subst matches.simps(5)) (simp add: matches.simps(2))
    have ne: "matches ic s (Star (Atom a)) ?x' \<noteq> []"
      by (subst matches.simps(5)) simp
    then obtain y' ys' where y': "matches ic s (Star (Atom a)) ?x' = y' # ys'"
      by (cases "matches ic s (Star (Atom a)) ?x'") auto
    with eq less.prems have "y = y'" by simp
    moreover from True have "length s - endIndex ?x' < length s - endIndex x"
      by auto
    from less.hyps [OF this y'] have "captures y' = captures ?x' \<and> endIndex ?x' \<le> endIndex y'
         \<and> \<not> (endIndex y' < length s \<and> atom_matches ic a (s ! endIndex y'))" .
    ultimately show ?thesis by simp
  next
    case False
    from less.prems have "concat (map (matches ic s (Star (Atom a)))
        (filter (consumed s x) (matches ic s (Atom a) x))) @ [x] = y # ys"
      by (subst (asm) matches.simps(5))
    with False have "y = x" by (auto simp: matches.simps(2))
    with False show ?thesis by simp
  qed
qed

lemma plus_atom_first:
  assumes "matches ic s (OneOrMore (Atom a)) x = y # ys"
  shows "captures y = captures x \<and> endIndex x < endIndex y
     \<and> \<not> (endIndex y < length s \<and> atom_matches ic a (s ! endIndex y))"
proof (cases "endIndex x < length s \<and> atom_matches ic a (s ! endIndex x)")
  case True
  let ?x' = "x\<lparr>endIndex := endIndex x + 1\<rparr>"
  from True assms have "matches ic s (Star (Atom a)) ?x' = y # ys"
    by (simp add: OneOrMore_def matches.simps(2,3))
  from star_atom_first [OF this] show ?thesis by simp
next
  case False
  with assms show ?thesis by (auto simp: OneOrMore_def matches.simps(2,3))
qed

declare regexp_exec.simps [simp del]

lemma from_join_split:
  "from_join = Seq WordBoundary (Seq (Alt (lit ''FROM'') (lit ''JOIN''))
     (Seq (OneOrMore (Atom Space)) (Seq table_group alias_tail)))"
  by (simp add: from_join_def table_group_def alias_tail_def name_char_def)

lemma star_nonempty: "matches ic s (Star r) x \<noteq> []"
  by (subst matches.simps(5)) simp

lemma opt_nonempty: "matches ic s (Opt r) x \<noteq> []"
  by (simp add: matches.simps(6))

lemma seq_nonempty:
  "matches ic s r1 x \<noteq> [] \<Longrightarrow> (\<And>z. matches ic s r2 z \<noteq> []) \<Longrightarrow> matches ic s (Seq r1 r2) x \<noteq> []"
  by (cases "matches ic s r1 x") (auto simp: matches.simps(3))

lemma alias_tail_nonempty: "matches ic s alias_tail x \<noteq> []"
  unfolding alias_tail_def seq.simps
  by (intro seq_nonempty star_nonempty opt_nonempty)

lemma alias_tail_keeps_table:
  "y \<in> set (matches ic s alias_tail x) \<Longrightarrow> captures y 1 = captures x 1"
proof -
  have "1 \<notin> groups_of alias_tail"
    by (simp add: alias_tail_def lit_def OneOrMore_def)
  then show "y \<in> set (matches ic s alias_tail x) \<Longrightarrow> captures y 1 = captures x 1"
    by (rule matches_captures [rotated])
qed

lemma seq_first:
  assumes "matches ic s (Seq r1 r2) x = y # ys" and "endIndex x \<le> length s"
  shows "\<exists>z zs. endIndex x \<le> endIndex z \<and> endIndex z \<le> length s \<and> matches ic s r2 z = y # zs"
proof -
  from assms(1) have "concat (map (matches ic s r2) (matches ic s r1 x)) = y # ys"
    by (simp add: matches.simps(3))
  from concat_map_first [OF this] obtain z zs
    where z: "z \<in> set (matches ic s r1 x)" "matches ic s r2 z = y # zs"
    by blast
  from matches_min_len [OF z(1) assms(2)]
  have "endIndex x \<le> endIndex z" "endIndex z \<le> length s" by auto
  with z(2) show ?thesis by blast
qed

lemma dotted_first:
  assumes "matches ic s (Opt (Seq (Atom (Chr c)) (OneOrMore (Atom a)))) p = y # ys"
    and "endIndex p \<le> length s"
    and "\<not> (endIndex p < length s \<and> atom_matches ic a (s ! endIndex p))"
  shows "captures y = captures p \<and> endIndex p \<le> endIndex y
     \<and> \<not> (endIndex y < length s \<and> atom_matches ic a (s ! endIndex y))"
proof -
  let ?R = "Seq (Atom (Chr c)) (OneOrMore (Atom a))"
  have "0 < min_len ?R" by (simp add: OneOrMore_def)
  from filter_consumed [OF this assms(2)] assms(1)
  have eq: "matches ic s ?R p @ [p] = y # ys"
    by (simp add: matches.simps(6))
  show ?thesis
  proof (cases "matches ic s ?R p")
    case Nil
    with eq have "y = p" by simp
    with assms(3) show ?thesis by simp
  next
    case (Cons z zs)
    with eq have yz: "y = z" by simp
    from Cons have "concat (map (matches ic s (OneOrMore (Atom a))) (matches ic s (Atom (Chr c)) p)) = z # zs"
      by (simp add: matches.simps(3))
    from concat_map_first [OF this] obtain q zs'
      where q: "q \<in> set (matches ic s (Atom (Chr c)) p)" "matches ic s (OneOrMore (Atom a)) q = z # zs'"
      by blast
    from q(1) have qp: "captures q = captures p" "endIndex p \<le> endIndex q"
      by (auto simp: matches.simps(2) split: if_splits)
    from plus_atom_first [OF q(2)] qp yz show ?thesis by auto
  qed
qed

lemma table_group_first:
  assumes "matches ic s table_group x = g # gs" and "endIndex x \<le> length s"
  shows "captures g 1 = Some (endIndex x, endIndex g) \<and> endIndex x < endIndex g
     \<and> endIndex g \<le> length s
     \<and> \<not> (endIndex g < length s \<and> atom_matches ic name_char (s ! endIndex g))"
proof -
  let ?N = "OneOrMore (Atom name_char)"
  let ?D = "Opt (Seq (Atom (Chr CHR ''.'')) (OneOrMore (Atom name_char)))"
  from assms(1) obtain g' gs' where g': "matches ic s (Seq ?N ?D) x = g' # gs'"
    and g: "g = g'\<lparr>captures := (captures g')(1 \<mapsto> (endIndex x, endIndex g'))\<rparr>"
    by (auto simp: table_group_def matches.simps(7))
  from g' have "concat (map (matches ic s ?D) (matches ic s ?N x)) = g' # gs'"
    by (simp add: matches.simps(3))
  from concat_map_head [OF this opt_nonempty] obtain p ps zs
    where p: "matches ic s ?N x = p # ps" "matches ic s ?D p = g' # zs"
    by blast
  from plus_atom_first [OF p(1)]
  have p1: "endIndex x < endIndex p"
    "\<not> (endIndex p < length s \<and> atom_matches ic name_char (s ! endIndex p))"
    by simp_all
  from p(1) have "p \<in> set (matches ic s ?N x)" by simp
  from matches_min_len [OF this assms(2)] have p2: "endIndex p \<le> length s" by simp
  from dotted_first [OF p(2) p2 p1(2)]
  have d: "endIndex p \<le> endIndex g'"
    "\<not> (endIndex g' < length s \<and> atom_matches ic name_char (s ! endIndex g'))"
    by simp_all
  from g' have "g' \<in> set (matches ic s (Seq ?N ?D) x)" by simp
  from matches_min_len [OF this assms(2)] have "endIndex g' \<le> length s" by simp
  with g p1(1) d show ?thesis by simp
qed

lemma from_join_first:
  assumes "matches True s from_join x = y # ys" and "endIndex x \<le> length s"
  shows "\<exists>b e. captures y 1 = Some (b, e) \<and> endIndex x \<le> b \<and> b < e \<and> e \<le> endIndex y
     \<and> endIndex y \<le> length s
     \<and> \<not> (e < length s \<and> atom_matches True name_char (s ! e))"
proof -
  let ?T = "Seq table_group alias_tail"
  from assms(1) have m0: "matches True s (Seq WordBoundary (Seq (Alt (lit ''FROM'') (lit ''JOIN''))
     (Seq (OneOrMore (Atom Space)) ?T))) x = y # ys"
    by (simp only: from_join_split)
  from seq_first [OF m0 assms(2)] obtain x1 ys1 where x1: "endIndex x \<le> endIndex x1"
      "endIndex x1 \<le> length s"
      "matches True s (Seq (Alt (lit ''FROM'') (lit ''JOIN'')) (Seq (OneOrMore (Atom Space)) ?T)) x1 = y # ys1"
    by blast
  from seq_first [OF x1(3) x1(2)] obtain x2 ys2 where x2: "endIndex x1 \<le> endIndex x2"
      "endIndex x2 \<le> length s"
      "matches True s (Seq (OneOrMore (Atom Space)) ?T) x2 = y # ys2"
    by blast
  from seq_first [OF x2(3) x2(2)] obtain x3 ys3 where x3: "endIndex x2 \<le> endIndex x3"
      "endIndex x3 \<le> length s" "matches True s ?T x3 = y # ys3"
    by blast
  from x3(3) have "concat (map (matches True s alias_tail) (matches True s table_group x3)) = y # ys3"
    by (simp add: matches.simps(3))
  from concat_map_head [OF this alias_tail_nonempty] obtain g gs zs
    where g: "matches True s table_group x3 = g # gs" "matches True s alias_tail g = y # zs"
    by blast
  from g(2) have yin: "y \<in> set (matches True s alias_tail g)" by simp
  from alias_tail_keeps_table [OF yin] have c: "captures y 1 = captures g 1" .
  from table_group_first [OF g(1) x3(2)]
  have t: "captures g 1 = Some (endIndex x3, endIndex g)" "endIndex x3 < endIndex g"
    "endIndex g \<le> length s"
    "\<not> (endIndex g < length s \<and> atom_matches True name_char (s ! endIndex g))"
    by simp_all
  from matches_min_len [OF yin t(3)] have "endIndex g \<le> endIndex y" "endIndex y \<le> length s"
    by simp_all
  with c t x1(1) x2(1) x3(1) show ?thesis by auto
qed

lemma regexp_exec_Some:
  "regexp_exec ic r s i = Some (j, m) \<Longrightarrow>
     i \<le> j \<and> j \<le> length s \<and> (\<exists>ys. matches ic s r \<lparr>endIndex = j, captures = Map.empty\<rparr> = m # ys)"
proof (induction ic r s i rule: regexp_exec.induct)
  case (1 ic r s i)
  from "1.prems" have le: "\<not> length s < i"
    by (subst (asm) regexp_exec.simps) (auto split: if_splits)
  show ?case
  proof (cases "matches ic s r \<lparr>endIndex = i, captures = Map.empty\<rparr>")
    case Nil
    with "1.prems" le have "regexp_exec ic r s (i + 1) = Some (j, m)"
      by (subst (asm) regexp_exec.simps) simp
    from "1.IH" [OF le Nil this] show ?thesis by auto
  next
    case (Cons y ys)
    with "1.prems" le have "j = i" "m = y"
      by (subst (asm) regexp_exec.simps, simp)+
    with Cons le show ?thesis by auto
  qed
qed

lemma regexp_exec_atom_None:
  "regexp_exec ic r t i = None \<Longrightarrow> r = Atom a \<Longrightarrow> i \<le> k \<Longrightarrow> k < length t \<Longrightarrow>
     \<not> atom_matches ic a (t ! k)"
proof (induction ic r t i rule: regexp_exec.induct)
  case (1 ic r s i)
  from "1.prems"(3,4) have le: "\<not> length s < i" by simp
  from "1.prems"(1) le have nil: "matches ic s r \<lparr>endIndex = i, captures = Map.empty\<rparr> = []"
    by (subst (asm) regexp_exec.simps) (auto split: list.splits)
  with "1.prems"(1) le have nxt: "regexp_exec ic r s (i + 1) = None"
    by (subst (asm) regexp_exec.simps) simp
  show ?case
  proof (cases "k = i")
    case True
    with nil "1.prems"(2,4) show ?thesis
      by (auto simp: matches.simps(2) split: if_splits)
  next
    case False
    with "1.prems"(3) have "i + 1 \<le> k" by simp
    from "1.IH" [OF le nil nxt "1.prems"(2) this "1.prems"(4)] show ?thesis .
  qed
qed

lemma no_paren:
  assumes "\<not> regexp_test False paren (Some t)"
  shows "CHR ''('' \<notin> set t"
proof
  assume "CHR ''('' \<in> set t"
  then obtain k where k: "k < length t" "t ! k = CHR ''(''"
    by (auto simp: in_set_conv_nth)
  from assms have "regexp_exec False paren t 0 = None"
    by (cases "regexp_exec False paren t 0") (auto simp: regexp_test_def to_string_def)
  from regexp_exec_atom_None [OF this _ _ k(1), of "Chr CHR ''(''" ] k(2) show False
    by (simp add: paren_def)
qed

lemma name_char_paren: "atom_matches True name_char CHR ''(''"
  by (simp add: name_char_def is_space_def canonicalize_def)

lemma from_join_exec:
  assumes "regexp_exec True from_join sql i = Some (j, m)"
  shows "\<exists>b e. captures m 1 = Some (b, e) \<and> i \<le> j \<and> j \<le> b \<and> b < e \<and> e \<le> endIndex m
     \<and> endIndex m \<le> length sql \<and> \<not> (e < length sql \<and> sql ! e = CHR ''('')"
proof -
  from regexp_exec_Some [OF assms] obtain ys where ij: "i \<le> j" "j \<le> length sql"
    and m: "matches True sql from_join \<lparr>endIndex = j, captures = Map.empty\<rparr> = m # ys"
    by blast
  from from_join_first [OF m] ij(2) obtain b e where be: "captures m 1 = Some (b, e)"
    "j \<le> b" "b < e" "e \<le> endIndex m" "endIndex m \<le> length sql"
    "\<not> (e < length sql \<and> atom_matches True name_char (sql ! e))"
    by auto
  from be(6) name_char_paren have "\<not> (e < length sql \<and> sql ! e = CHR ''('')"
    by auto
  with be ij show ?thesis by blast
qed

lemma parse_loop_returns:
  assumes "list_all (table_ok sql) acc"
  shows "\<exists>tables. parse_loop sql i acc = Some tables \<and> list_all (table_ok sql) tables
     \<and> length tables \<le> length acc + (length sql - i)"
  using assms
proof (induction "length sql - i" arbitrary: i acc rule: less_induct)
  case less
  show ?case
  proof (cases "regexp_exec True from_join sql i")
    case None
    then have "parse_loop sql i acc = Some acc"
      by (subst parse_loop.simps) simp
    with less.prems show ?thesis by simp
  next
    case (Some jm)
    obtain j m where jm: "jm = (j, m)" by (cases jm)
    from Some jm have ex: "regexp_exec True from_join sql i = Some (j, m)" by simp
    from from_join_exec [OF ex] obtain b e where be: "captures m 1 = Some (b, e)"
      "i \<le> j" "j \<le> b" "b < e" "e \<le> endIndex m" "endIndex m \<le> length sql"
      "\<not> (e < length sql \<and> sql ! e = CHR ''('')"
      by blast
    from be have dec: "length sql - endIndex m < length sql - i" by arith
    from be(1) have g1: "matched sql m 1 = Some (substring sql (b, e))"
      by (simp add: matched_def)
    show ?thesis
    proof (cases "regexp_test False paren (matched sql m 1)")
      case True
      with ex have "parse_loop sql i acc = parse_loop sql (endIndex m) acc"
        by (subst parse_loop.simps) (simp add: Let_def)
      moreover from less.hyps [OF dec less.prems] obtain tables
        where "parse_loop sql (endIndex m) acc = Some tables" "list_all (table_ok sql) tables"
          "length tables \<le> length acc + (length sql - endIndex m)"
        by blast
      ultimately show ?thesis using dec by auto
    next
      case False
      define al where "al =
        (let alias = matched sql m 2;
             alias = (if \<not> falsy alias \<and> regexp_test False reserved_words alias then None else alias)
         in if \<not> falsy alias then alias else matched sql m 1)"
      from False ex have step: "parse_loop sql i acc =
          parse_loop sql (endIndex m) (acc @ [\<lparr>table_name = matched sql m 1, alias' = al\<rparr>])"
        by (subst parse_loop.simps) (simp add: Let_def al_def)
      let ?t = "\<lparr>table_name = matched sql m 1, alias' = al\<rparr>"
      from False g1 have "CHR ''('' \<notin> set (substring sql (b, e))"
        by (simp add: no_paren)
      moreover from ex be(1) g1 have "table_segment sql ?t (b, e)"
        unfolding table_segment_def by auto
      ultimately have "table_ok sql ?t"
        unfolding table_ok_def using be(4,5,6,7)
        by (intro exI [of _ b] exI [of _ e]) auto
      with less.prems have "list_all (table_ok sql) (acc @ [?t])" by simp
      from less.hyps [OF dec this] obtain tables
        where "parse_loop sql (endIndex m) (acc @ [?t]) = Some tables"
          "list_all (table_ok sql) tables"
          "length tables \<le> length (acc @ [?t]) + (length sql - endIndex m)"
        by blast
      with step dec show ?thesis by auto
    qed
  qed
qed

text \<open>
  C7. For every text the scan of \<^verbatim>\<open>parseSqlAndFindTableNameAndAliases\<close> returns,
  with at most as many references as the text has characters. The table name of every
  reference it returns is a segment of the text that a match captured; the segment is
  not empty, holds no \<^verbatim>\<open>(\<close>, and the character after it, if there is one, is not
  \<^verbatim>\<open>(\<close>. When the pattern matches nowhere the result is empty. No match is of
  zero width: wherever \<^verbatim>\<open>exec\<close> starts, a match it finds ends after its start and
  within the text, so \<^verbatim>\<open>lastIndex\<close> grows with every turn of the loop.
\<close>

theorem extract_terminates:
  "\<exists>tables. parseSqlAndFindTableNameAndAliases sql = Some tables
     \<and> length tables \<le> length sql
     \<and> (\<forall>t \<in> set tables. \<exists>b e. table_segment sql t (b, e) \<and> b < e \<and> e \<le> length sql
           \<and> \<not> (e < length sql \<and> sql ! e = CHR ''('')
           \<and> CHR ''('' \<notin> set (substring sql (b, e)))
     \<and> (regexp_exec True from_join sql 0 = None \<longrightarrow> tables = [])
     \<and> (\<forall>i j m. regexp_exec True from_join sql i = Some (j, m) \<longrightarrow>
           i \<le> j \<and> j < endIndex m \<and> endIndex m \<le> length sql)"
proof -
  have "list_all (table_ok sql) []" by simp
  from parse_loop_returns [OF this, of 0] obtain tables
    where t: "parse_loop sql 0 [] = Some tables" "list_all (table_ok sql) tables"
      "length tables \<le> length sql"
    by auto
  have none: "regexp_exec True from_join sql 0 = None \<longrightarrow> tables = []"
  proof
    assume "regexp_exec True from_join sql 0 = None"
    then have "parse_loop sql 0 [] = Some []"
      by (subst parse_loop.simps) simp
    with t(1) show "tables = []" by simp
  qed
  have progress: "i \<le> j \<and> j < endIndex m \<and> endIndex m \<le> length sql"
    if "regexp_exec True from_join sql i = Some (j, m)" for i j m
    using from_join_exec [OF that] by auto
  from t none progress show ?thesis
    unfolding parseSqlAndFindTableNameAndAliases_def
    by (intro exI [of _ tables]) (simp add: table_ok_def list_all_iff)
qed

lemma parse_returns: "\<exists>tables. parseSqlAndFindTableNameAndAliases sql = Some tables"
proof -
  have "list_all (table_ok sql) []" by simp
  from parse_loop_returns [OF this, of 0] show ?thesis
    unfolding parseSqlAndFindTableNameAndAliases_def by blast
qed

text \<open>The scan on two texts, evaluated.\<close>

lemma eval_function_call:
  "parseSqlAndFindTableNameAndAliases ''select * from f(1) g join t (x)''
     = Some [\<lparr>table_name = Some ''t'', alias' = Some ''(x)''\<rparr>]"
  by code_simp

lemma eval_no_match: "regexp_exec True from_join ''select 1 fromage'' 0 = None"
  by code_simp

theorem extract_terminates_witness:
  "parseSqlAndFindTableNameAndAliases ''select * from f(1) g join t (x)''
     = Some [\<lparr>table_name = Some ''t'', alias' = Some ''(x)''\<rparr>]
   \<and> (\<exists>b e. table_segment ''select * from f(1) g join t (x)''
          \<lparr>table_name = Some ''t'', alias' = Some ''(x)''\<rparr> (b, e)
        \<and> \<not> (e < length ''select * from f(1) g join t (x)''
             \<and> ''select * from f(1) g join t (x)'' ! e = CHR ''(''))
   \<and> regexp_exec True from_join ''select 1 fromage'' 0 = None
   \<and> parseSqlAndFindTableNameAndAliases ''select 1 fromage'' = Some []"
proof -
  from extract_terminates [of "''select 1 fromage''"] eval_no_match
  have "parseSqlAndFindTableNameAndAliases ''select 1 fromage'' = Some []"
    by auto
  moreover from extract_terminates [of "''select * from f(1) g join t (x)''"] eval_function_call
  have "\<exists>b e. table_segment ''select * from f(1) g join t (x)''
          \<lparr>table_name = Some ''t'', alias' = Some ''(x)''\<rparr> (b, e)
        \<and> \<not> (e < length ''select * from f(1) g join t (x)''
             \<and> ''select * from f(1) g join t (x)'' ! e = CHR ''('')"
    by auto
  ultimately show ?thesis
    using eval_function_call eval_no_match by simp
qed

text \<open>
  C2: what the code does on the claim's example and on a lower-case alias that merely
  contains a reserved word. The test \<^verbatim>\<open>/on|where|inner|left|right|join/.test(alias)\<close>
  has no \<^verbatim>\<open>i\<close> flag and no anchors: \<^verbatim>\<open>WHERE\<close> is kept as the alias, and
  \<^verbatim>\<open>conn\<close> (which contains \<^verbatim>\<open>on\<close>) is dropped.
\<close>

theorem reserved_word_test_is_case_sensitive:
  "parseSqlAndFindTableNameAndAliases ''SELECT * FROM orders WHERE x=1''
     = Some [\<lparr>table_name = Some ''orders'', alias' = Some ''WHERE''\<rparr>]
   \<and> parseSqlAndFindTableNameAndAliases ''select * from users conn''
     = Some [\<lparr>table_name = Some ''users'', alias' = Some ''users''\<rparr>]"
  by code_simp

section \<open>Properties of the completion provider\<close>

lemma split_nonempty: "split sep s \<noteq> []"
  by (induction s) (auto split: list.splits)

lemma split_single: "sep \<notin> set s \<Longrightarrow> split sep s = [s]"
  by (induction s) auto

lemma split_many: "sep \<in> set s \<Longrightarrow> \<exists>w1 w2 ws. split sep s = w1 # w2 # ws"
proof (induction s)
  case Nil
  then show ?case by simp
next
  case (Cons c cs)
  show ?case
  proof (cases "c = sep")
    case True
    then show ?thesis
      using split_nonempty [of sep cs] by (cases "split sep cs") auto
  next
    case False
    with Cons.prems have "sep \<in> set cs" by simp
    from Cons.IH [OF this] False show ?thesis by auto
  qed
qed

lemma takeWhile_snoc_stop: "\<not> P c \<Longrightarrow> takeWhile P (xs @ [c]) = takeWhile P xs"
  by (induction xs) auto

lemma last_split: "last (split sep s) = rev (takeWhile (\<lambda>c. c \<noteq> sep) (rev s))"
proof (induction s)
  case Nil
  then show ?case by simp
next
  case (Cons c cs)
  show ?case
  proof (cases "c = sep")
    case True
    then have "last (split sep (c # cs)) = last (split sep cs)"
      by (simp add: split_nonempty)
    moreover from True have "takeWhile (\<lambda>c. c \<noteq> sep) (rev cs @ [c]) = takeWhile (\<lambda>c. c \<noteq> sep) (rev cs)"
      by (simp add: takeWhile_snoc_stop)
    ultimately show ?thesis using Cons.IH by simp
  next
    case False
    show ?thesis
    proof (cases "sep \<in> set cs")
      case True
      from split_many [OF this] obtain w1 w2 ws where w: "split sep cs = w1 # w2 # ws"
        by blast
      with False have "last (split sep (c # cs)) = last (split sep cs)" by simp
      moreover from True have "takeWhile (\<lambda>c. c \<noteq> sep) (rev cs @ [c]) = takeWhile (\<lambda>c. c \<noteq> sep) (rev cs)"
        by (auto simp: takeWhile_append)
      ultimately show ?thesis using Cons.IH by simp
    next
      case notin: False
      with False have l: "last (split sep (c # cs)) = c # cs"
        by (simp add: split_single)
      from notin False have t: "takeWhile (\<lambda>c. c \<noteq> sep) (rev cs @ [c]) = rev cs @ [c]"
        by (subst takeWhile_eq_all_conv) auto
      show ?thesis
        unfolding l rev.simps t by simp
    qed
  qed
qed

lemma thisToken_of_last: "thisToken_of thisLine = last (split CHR '' '' (trim thisLine))"
proof -
  obtain w ws where "split CHR '' '' (trim thisLine) = w # ws"
    using split_nonempty [of "CHR '' ''" "trim thisLine"] by (cases "split CHR '' '' (trim thisLine)") auto
  then show ?thesis
    by (auto simp: thisToken_of_def slice_last_def js_index_def falsy_def to_string_def Let_def)
qed

lemma trim_Nil: "trim p = [] \<longleftrightarrow> list_all is_space p"
proof
  assume "trim p = []"
  then have all: "\<forall>c \<in> set (dropWhile is_space p). is_space c"
    by (simp add: trim_def)
  have "dropWhile is_space p = []"
  proof (cases "dropWhile is_space p")
    case Nil
    then show ?thesis .
  next
    case (Cons a as)
    from hd_dropWhile [of is_space p] Cons have "\<not> is_space a" by simp
    with all Cons show ?thesis by simp
  qed
  then show "list_all is_space p"
    by (simp add: list_all_iff)
next
  assume "list_all is_space p"
  then have "dropWhile is_space p = []"
    by (simp add: list_all_iff)
  then show "trim p = []"
    unfolding trim_def by (simp only: rev.simps dropWhile.simps)
qed

lemma trim_last: "trim p \<noteq> [] \<Longrightarrow> \<not> is_space (last (trim p))"
proof -
  assume ne: "trim p \<noteq> []"
  let ?d = "dropWhile is_space (rev (dropWhile is_space p))"
  from ne have d: "?d \<noteq> []" by (simp add: trim_def)
  then have "\<not> is_space (hd ?d)" by (rule hd_dropWhile)
  moreover from d have "last (trim p) = hd ?d" by (simp add: trim_def last_rev)
  ultimately show ?thesis by simp
qed

text \<open>
  C8, amended. The token is the last piece of the trimmed line prefix when it is cut
  at the space character (U+0020) only: the characters after the last space of the
  trimmed prefix. It is empty exactly when the prefix is blank, that is, empty or all
  white space; white space at the end of the prefix is trimmed away first.
\<close>

theorem preceding_token_space_delimited:
  "thisToken_of linePrefix = rev (takeWhile (\<lambda>c. c \<noteq> CHR '' '') (rev (trim linePrefix)))
   \<and> (thisToken_of linePrefix = [] \<longleftrightarrow> list_all is_space linePrefix)"
proof -
  have eq: "thisToken_of linePrefix = rev (takeWhile (\<lambda>c. c \<noteq> CHR '' '') (rev (trim linePrefix)))"
    by (simp add: thisToken_of_last last_split)
  have "thisToken_of linePrefix = [] \<longleftrightarrow> trim linePrefix = []"
  proof
    assume "thisToken_of linePrefix = []"
    with eq have t: "takeWhile (\<lambda>c. c \<noteq> CHR '' '') (rev (trim linePrefix)) = []" by simp
    show "trim linePrefix = []"
    proof (rule ccontr)
      assume ne: "trim linePrefix \<noteq> []"
      with t have "hd (rev (trim linePrefix)) = CHR '' ''"
        by (cases "rev (trim linePrefix)") (auto split: if_splits)
      with ne have "last (trim linePrefix) = CHR '' ''" by (simp add: hd_rev)
      moreover have "is_space CHR '' ''" by (simp add: is_space_def)
      ultimately show False using trim_last [OF ne] by simp
    qed
  next
    assume "trim linePrefix = []"
    with eq show "thisToken_of linePrefix = []" by simp
  qed
  with eq show ?thesis by (simp add: trim_Nil)
qed

text \<open>
  C8, as the claim states it, fails on the prefix \<^verbatim>\<open>a<TAB>b<SPACE>\<close>: it ends in
  white space, and its last white-space-delimited token is \<open>b\<close>, but the code's
  token is \<^verbatim>\<open>a<TAB>b\<close>, neither empty nor \<open>b\<close>.
\<close>

theorem preceding_token_counterexample:
  "thisToken_of [CHR ''a'', CHR 0x09, CHR ''b'', CHR '' ''] = [CHR ''a'', CHR 0x09, CHR ''b'']
   \<and> last_whitespace_token [CHR ''a'', CHR 0x09, CHR ''b'', CHR '' ''] = ''b''"
  by code_simp

lemma provider_suggestions:
  "\<exists>locals. provideCompletionItems model position =
     Some (locals, [myCustomSnippet (word_range model position)])"
proof -
  from parse_returns obtain tables
    where "parseSqlAndFindTableNameAndAliases (getValue model) = Some tables"
    by blast
  then show ?thesis
    by (simp add: provideCompletionItems_def Let_def myCustomSnippet_def word_range_def
          respond_def)
qed

text \<open>
  C1, amended. For every model and position, whether or not the token before the
  cursor ends with a dot and whether or not its qualifier is a key of the alias
  mapping, the provider answers with the static snippet alone, carrying the range of
  the word at the cursor; it adds no table or column candidate.
\<close>

theorem only_static_floor:
  "\<exists>locals. provideCompletionItems model position =
     Some (locals, [myCustomSnippet (word_range model position)])"
  by (rule provider_suggestions)



text \<open>
  C1, as the claim states it, fails on its own example: on the text
  \<^verbatim>\<open>SELECT c. FROM customers c\<close> with the cursor right after \<^verbatim>\<open>c.\<close> (column 10)
  the token is \<^verbatim>\<open>c.\<close>, its qualifier \<open>c\<close> is found in the mapping with the table
  \<open>customers\<close>, and the suggestions are the static snippet only: no candidate
  \<open>id\<close> or \<open>name\<close>.
\<close>

theorem qualified_columns_counterexample:
  "(case provideCompletionItems (one_line_model ''SELECT c. FROM customers c'')
          \<lparr>lineNumber = 1, column = 10\<rparr> of
      None \<Rightarrow> None
    | Some (l, suggestions) \<Rightarrow>
        Some (thisToken l, lastTokenBeforeDot l, resolved_table l, suggestions))
   = Some (''c.'', Some ''c'', Some ''customers'',
       [myCustomSnippet \<lparr>startLineNumber = 1, startColumn = 10, endLineNumber = 1, endColumn = 10\<rparr>])"
  by code_simp

end
